theory Spec2Isabelle
  imports
    Main
    "HOL-Library.Multiset"
    "HOL-Library.Product_Lexorder"
    "HOL-Library.Option_ord"
    "HOL-Library.List_Lexorder"
    "HOL-Library.Char_ord"
begin

section \<open>The per-server prediction model (class ServerSched of final.py)\<close>

text \<open>
  A timeline entry is the Python tuple \<open>(end_time, cores_used)\<close> of two unbounded
  integers. Python compares tuples lexicographically, which is the order of
  \<open>Product_Lexorder\<close> on pairs.

  The field \<open>heap\<close> is a Python list that the class touches only through
  \<open>heapq.heappush\<close>, \<open>heapq.heappop\<close>, \<open>self.heap[0]\<close>, \<open>sum\<close> and \<open>sorted\<close>.
  \<open>heapq\<close> belongs to Python's standard library; it is modelled by its contract: the
  list holds the pushed elements, \<open>heap[0]\<close> is a least element, and \<open>heappop\<close>
  removes one occurrence of it. The positions of the other elements inside the list are
  never read by the program and are not modelled.
\<close>

type_synonym entry = "int \<times> int"

record ServerSched =
  cores_total :: int
  heap :: "entry list"

definition ServerSched_init :: "int \<Rightarrow> ServerSched" where
  "ServerSched_init n = \<lparr>cores_total = n, heap = []\<rparr>"

definition heap_top :: "entry list \<Rightarrow> entry" where
  \<comment> \<open>\<open>heap[0]\<close> of a non-empty heap\<close>
  "heap_top h = Min (set h)"

definition heappop :: "entry list \<Rightarrow> entry list" where
  "heappop h = remove1 (heap_top h) h"

definition heappush :: "entry list \<Rightarrow> entry \<Rightarrow> entry list" where
  "heappush h x = h @ [x]"

text \<open>
  \<^verbatim>\<open>while self.heap and self.heap[0][0] <= now: heapq.heappop(self.heap)\<close>
\<close>

function prune_loop :: "entry list \<Rightarrow> int \<Rightarrow> entry list" where
  "prune_loop h now =
     (if h \<noteq> [] \<and> fst (heap_top h) \<le> now then prune_loop (heappop h) now else h)"
  by pat_completeness auto
termination
proof (relation "measure (\<lambda>(h, now). length h)")
  show "wf (measure (\<lambda>(h, now). length h))" by simp
next
  fix h :: "entry list" and now :: int
  assume "h \<noteq> [] \<and> fst (heap_top h) \<le> now"
  then have "heap_top h \<in> set h"
    by (simp add: heap_top_def)
  then have "length (heappop h) < length h"
    using length_pos_if_in_set [of "heap_top h" h]
    by (simp add: heappop_def length_remove1)
  then show "((heappop h, now), (h, now)) \<in> measure (\<lambda>(h, now). length h)"
    by simp
qed

declare prune_loop.simps [simp del]

definition prune_to_time :: "ServerSched \<Rightarrow> int \<Rightarrow> ServerSched" where
  "prune_to_time s now = s\<lparr>heap := prune_loop (heap s) now\<rparr>"

definition running_cores :: "ServerSched \<Rightarrow> int" where
  "running_cores s = sum_list (map snd (heap s))"

text \<open>
  The release simulation: \<^verbatim>\<open>for end_t, c in tmp\<close> with the clock \<open>t\<close> and the counter
  \<open>avail_now\<close>; the \<open>return t\<close> after the loop is the first equation.
\<close>

fun release_loop :: "entry list \<Rightarrow> int \<Rightarrow> int \<Rightarrow> int \<Rightarrow> int" where
  "release_loop [] t avail_now c_need = t"
| "release_loop ((end_t, c) # tmp) t avail_now c_need =
     (let t' = (if end_t > t then end_t else t);
          avail_now' = avail_now + c
      in if avail_now' \<ge> c_need then t' else release_loop tmp t' avail_now' c_need)"

text \<open>
  \<open>earliest_start_for\<close> prunes the model it is called on, so it returns the start time
  together with the model as it is left. \<open>sorted(self.heap)\<close> sorts the tuples, that is,
  by end time and then by cores.
\<close>

definition earliest_start_for :: "ServerSched \<Rightarrow> int \<Rightarrow> int \<Rightarrow> int \<times> ServerSched" where
  "earliest_start_for s now c_need =
     (let s' = prune_to_time s now;
          avail = cores_total s' - running_cores s'
      in if avail \<ge> c_need then (now, s')
         else (release_loop (sort (heap s')) now avail c_need, s'))"

text \<open>\<open>add_job\<close> returns the end time and pushes the entry; nothing is checked.\<close>

definition add_job :: "ServerSched \<Rightarrow> int \<Rightarrow> int \<Rightarrow> int \<Rightarrow> int \<times> ServerSched" where
  "add_job s start_t c_need est =
     (let end_t = start_t + est
      in (end_t, s\<lparr>heap := heappush (heap s) (end_t, c_need)\<rparr>))"

section \<open>The catalog, the server rows and the event loop (function main of final.py)\<close>

text \<open>
  A row of a \<open>GETS\<close> reply is the dictionary that \<open>parse_server_row\<close> builds; the line is
  taken as already split into its nine fields, the numeric ones converted.
\<close>

record server_row =
  srv_type :: string
  srv_id :: int
  srv_state :: string
  curStartTime :: int
  cores :: int
  mem :: int
  disk :: int
  wJobs :: int
  rJobs :: int

definition parse_server_row ::
  "string \<times> int \<times> string \<times> int \<times> int \<times> int \<times> int \<times> int \<times> int \<Rightarrow> server_row" where
  "parse_server_row f = (case f of (f0, f1, f2, f3, f4, f5, f6, f7, f8) \<Rightarrow>
     \<lparr>srv_type = f0, srv_id = f1, srv_state = f2, curStartTime = f3, cores = f4,
      mem = f5, disk = f6, wJobs = f7, rJobs = f8\<rparr>)"

text \<open>
  A Python float is NaN or a number. On the numbers (the infinities among them, and the
  two zeros taken as one, which Python finds equal) \<open><\<close> is a linear order; they are
  kept as an arbitrary linear order \<open>'r\<close>, so that nothing is assumed about rounding.
  \<open>==\<close> and \<open><\<close> are false whenever NaN takes part.
\<close>

datatype 'r pyfloat = NaN | Num 'r

fun float_eq :: "'r pyfloat \<Rightarrow> 'r pyfloat \<Rightarrow> bool" where
  "float_eq (Num a) (Num b) = (a = b)"
| "float_eq _ _ = False"

fun float_lt :: "('r::linorder) pyfloat \<Rightarrow> 'r pyfloat \<Rightarrow> bool" where
  "float_lt (Num a) (Num b) = (a < b)"
| "float_lt _ _ = False"

text \<open>
  \<open>float * int\<close> converts the integer to a float first and raises \<open>OverflowError\<close>
  when it rounds beyond the largest float, that is, from \<open>2^1024 - 2^970\<close> on.
\<close>

definition int_too_large :: "int \<Rightarrow> bool" where
  "int_too_large n = (\<bar>n\<bar> \<ge> 2 ^ 1024 - 2 ^ 970)"

text \<open>
  What \<open>main\<close> keeps from \<open>read_system_info\<close> and from its arguments: the dictionaries
  \<open>type_boot\<close> and \<open>type_cores\<close> and \<open>args.fallback_boot_penalty\<close>. The cost term
  \<open>args.cost_bias * type_rate.get(stype, 0.0) * j_est\<close> is a product of floats; for an
  estimate that converts to a float its value is \<open>rate_bias stype j_est\<close>, any float, NaN
  included (\<open>--cost_bias nan\<close>, an hourly rate \<open>nan\<close>, or infinity times zero).
\<close>

record 'r system_info =
  type_boot :: "string \<rightharpoonup> int"
  type_cores :: "string \<rightharpoonup> int"
  fallback_boot_penalty :: int
  rate_bias :: "string \<Rightarrow> int \<Rightarrow> 'r pyfloat"

type_synonym srv_key = "string \<times> int"
type_synonym sched_map = "srv_key \<rightharpoonup> ServerSched"
type_synonym 'r cand = "int \<times> int \<times> 'r pyfloat \<times> int \<times> string \<times> int"

text \<open>
  The exceptions that the decision itself can raise: \<open>KeyError\<close> from
  \<open>sched_by_srv[(stype, sid)]\<close>, \<open>OverflowError\<close> from the cost term, and \<open>TypeError\<close>
  from unpacking \<open>best_tuple\<close> when it is still \<open>None\<close>. The exchanges with the remote
  system are taken as successful: a reply is given to the model as the parsed list, and
  \<open>SCHD\<close> is acknowledged.
\<close>

datatype error = KeyError | TypeError | OverflowError

datatype command = SCHD int string int | QUIT

datatype loop_ctl = Continue | Break

record main_state =
  sched_by_srv :: sched_map
  main_now :: int

datatype event =
    JOBN int int int int int int
  | JCPL int int string int
  | NONE
  | OTHER string

definition state_penalty_seconds :: "string \<Rightarrow> int \<Rightarrow> int" where
  "state_penalty_seconds state boot_seconds =
     (if state = ''active'' \<or> state = ''idle'' then 0 else max 0 boot_seconds)"

definition srv_key_of :: "server_row \<Rightarrow> srv_key" where
  "srv_key_of s = (srv_type s, srv_id s)"

definition cores_of_type :: "'r system_info \<Rightarrow> server_row \<Rightarrow> int" where
  \<comment> \<open>\<open>type_cores.get(s["type"], s["cores"])\<close>\<close>
  "cores_of_type info s =
     (case type_cores info (srv_type s) of None \<Rightarrow> cores s | Some n \<Rightarrow> n)"

text \<open>The models created from the first \<open>GETS All\<close>.\<close>

definition init_models :: "'r system_info \<Rightarrow> server_row list \<Rightarrow> sched_map" where
  "init_models info rows =
     fold (\<lambda>s m. m(srv_key_of s \<mapsto> ServerSched_init (cores_of_type info s))) rows Map.empty"

text \<open>The fast path: the list \<open>instant\<close> and the least triple \<open>(cores, type, id)\<close> of it.\<close>

definition instant_of :: "int \<Rightarrow> server_row list \<Rightarrow> server_row list" where
  "instant_of j_cores caps =
     filter (\<lambda>s. (srv_state s = ''active'' \<or> srv_state s = ''idle'')
                 \<and> wJobs s = 0 \<and> cores s \<ge> j_cores) caps"

definition fast_best :: "'r system_info \<Rightarrow> server_row list \<Rightarrow> int \<times> string \<times> int" where
  "fast_best info instant =
     Min (set (map (\<lambda>s. (cores_of_type info s, srv_type s, srv_id s)) instant))"

text \<open>
  \<open>cand < best_tuple\<close> on two candidate tuples: Python looks for the first position where
  the items are not \<open>==\<close> and answers \<open><\<close> of the two items there; tuples that are \<open>==\<close>
  at every position are not \<open><\<close>. (The two cost terms are never the same object, so
  their \<open>==\<close> is that of the floats.)
\<close>

definition tuple_lt :: "('r::linorder) cand \<Rightarrow> 'r cand \<Rightarrow> bool" where
  "tuple_lt x y =
     (case x of (f1, s1, b1, c1, t1, i1) \<Rightarrow>
      case y of (f2, s2, b2, c2, t2, i2) \<Rightarrow>
        if f1 \<noteq> f2 then f1 < f2
        else if s1 \<noteq> s2 then s1 < s2
        else if \<not> float_eq b1 b2 then float_lt b1 b2
        else if c1 \<noteq> c2 then c1 < c2
        else if t1 \<noteq> t2 then t1 < t2
        else i1 < i2)"

text \<open>
  The body of the general path's loop for one row: the model is looked up or created,
  \<open>earliest_start_for\<close> prunes it in place, and the candidate tuple is built, unless the
  cost term raises.
\<close>

definition visit ::
  "('r::linorder) system_info \<Rightarrow> int \<Rightarrow> int \<Rightarrow> int \<Rightarrow> server_row \<Rightarrow> sched_map
     \<Rightarrow> error + 'r cand \<times> sched_map" where
  "visit info now j_cores j_est s m =
     (let stype = srv_type s; sid = srv_id s;
          sched = (case m (stype, sid) of
                     None \<Rightarrow> ServerSched_init (cores_of_type info s)
                   | Some sc \<Rightarrow> sc);
          (start0, sched') = earliest_start_for sched now j_cores;
          boot_sec = (case type_boot info stype of
                        None \<Rightarrow> fallback_boot_penalty info
                      | Some b \<Rightarrow> b);
          start = start0 + state_penalty_seconds (srv_state s) boot_sec;
          finish = start + j_est
      in if int_too_large j_est then Inl OverflowError
         else Inr ((finish, start, rate_bias info stype j_est, cores_of_type info s, stype, sid),
                   m((stype, sid) \<mapsto> sched')))"

fun general_loop ::
  "('r::linorder) system_info \<Rightarrow> int \<Rightarrow> int \<Rightarrow> int \<Rightarrow> server_row list \<Rightarrow> sched_map
     \<Rightarrow> 'r cand option \<Rightarrow> error + sched_map \<times> 'r cand option" where
  "general_loop info now j_cores j_est [] m best_tuple = Inr (m, best_tuple)"
| "general_loop info now j_cores j_est (s # caps) m best_tuple =
     (case visit info now j_cores j_est s m of
        Inl e \<Rightarrow> Inl e
      | Inr (cand, m') \<Rightarrow>
          (let best_tuple' = (case best_tuple of
                                None \<Rightarrow> Some cand
                              | Some b \<Rightarrow> if tuple_lt cand b then Some cand else Some b)
           in general_loop info now j_cores j_est caps m' best_tuple'))"

text \<open>\<open>sched_by_srv[(stype, sid)].add_job(start, j_cores, j_est)\<close>\<close>

definition record_job ::
  "sched_map \<Rightarrow> srv_key \<Rightarrow> int \<Rightarrow> int \<Rightarrow> int \<Rightarrow> error + sched_map" where
  "record_job m k start_t j_cores j_est =
     (case m k of
        None \<Rightarrow> Inl KeyError
      | Some sched \<Rightarrow> Inr (m(k \<mapsto> snd (add_job sched start_t j_cores j_est))))"

text \<open>
  The two-phase decision over the list \<open>caps\<close>. The result is the list of decisions sent
  and either the exception or the models as they are left.
\<close>

definition place_job ::
  "('r::linorder) system_info \<Rightarrow> sched_map \<Rightarrow> int \<Rightarrow> int \<Rightarrow> int \<Rightarrow> int \<Rightarrow> server_row list
     \<Rightarrow> command list \<times> (error + sched_map)" where
  "place_job info m job_id now j_cores j_est caps =
     (let instant = instant_of j_cores caps
      in if instant \<noteq> [] then
           (case fast_best info instant of (tot, stype, sid) \<Rightarrow>
              ([SCHD job_id stype sid], record_job m (stype, sid) now j_cores j_est))
         else
           (case general_loop info now j_cores j_est caps m None of
              Inl e \<Rightarrow> ([], Inl e)
            | Inr (m', None) \<Rightarrow> ([], Inl TypeError)
            | Inr (m', Some (finish, chosen_start, bias, tot, stype, sid)) \<Rightarrow>
                ([SCHD job_id stype sid],
                 record_job m' (stype, sid) chosen_start j_cores j_est)))"

text \<open>
  The \<open>JOBN\<close> branch; \<open>gets_capable\<close> and \<open>gets_all\<close> are the replies to the two queries
  (the second is only asked for when the first is empty).
\<close>

definition on_JOBN ::
  "('r::linorder) system_info \<Rightarrow> sched_map \<Rightarrow> int \<Rightarrow> int \<Rightarrow> int \<Rightarrow> int
     \<Rightarrow> server_row list \<Rightarrow> server_row list \<Rightarrow> command list \<times> (error + sched_map)" where
  "on_JOBN info m job_id now j_cores j_est gets_capable gets_all =
     (let caps = (if gets_capable = [] then gets_all else gets_capable)
      in place_job info m job_id now j_cores j_est caps)"

text \<open>One turn of \<open>while True\<close> after \<open>REDY\<close>, for the event received.\<close>

fun step ::
  "('r::linorder) system_info \<Rightarrow> main_state \<Rightarrow> event \<Rightarrow> server_row list \<Rightarrow> server_row list
     \<Rightarrow> command list \<times> (error + loop_ctl \<times> main_state)" where
  "step info st (JOBN job_id submit j_cores j_mem j_disk j_est) gets_capable gets_all =
     (case on_JOBN info (sched_by_srv st) job_id submit j_cores j_est gets_capable gets_all of
        (sent, Inl e) \<Rightarrow> (sent, Inl e)
      | (sent, Inr m') \<Rightarrow> (sent, Inr (Continue, \<lparr>sched_by_srv = m', main_now = submit\<rparr>)))"
| "step info st (JCPL t job_id stype sid) gets_capable gets_all =
     ([], Inr (Continue,
        \<lparr>sched_by_srv =
           (case sched_by_srv st (stype, sid) of
              None \<Rightarrow> sched_by_srv st
            | Some sched \<Rightarrow> (sched_by_srv st)((stype, sid) \<mapsto> prune_to_time sched t)),
         main_now = t\<rparr>))"
| "step info st NONE gets_capable gets_all = ([QUIT], Inr (Break, st))"
| "step info st (OTHER kind) gets_capable gets_all = ([], Inr (Continue, st))"

section \<open>Notions used in the statements\<close>

subsection \<open>The specification's description of \<open>earliestStartFor\<close>\<close>

text \<open>
  This follows the specification's words, not the code. The simulated clock after a list
  of releases never goes backward; the availability after them is the initial one plus
  the freed cores; the answer of \<open>spec_release\<close> for a list \<open>es\<close> of releases is \<open>now\<close>
  when the availability meets the demand at once, otherwise the clock at the first
  non-empty prefix of \<open>es\<close> whose availability meets it, and the clock after all of \<open>es\<close>
  if there is none. \<open>spec_earliestStartFor\<close> applies it to the retained entries in
  sorted order.
\<close>

definition sim_clock :: "int \<Rightarrow> entry list \<Rightarrow> int" where
  "sim_clock now es = fold (\<lambda>e t. max t (fst e)) es now"

definition sim_avail :: "int \<Rightarrow> entry list \<Rightarrow> int" where
  "sim_avail avail es = avail + sum_list (map snd es)"

definition first_sufficient :: "int \<Rightarrow> entry list \<Rightarrow> int \<Rightarrow> nat option" where
  "first_sufficient avail es k =
     find (\<lambda>n. sim_avail avail (take n es) \<ge> k) [1..<Suc (length es)]"

definition spec_release :: "int \<Rightarrow> entry list \<Rightarrow> int \<Rightarrow> int \<Rightarrow> int" where
  "spec_release now es avail k =
     (if avail \<ge> k then now
      else (case first_sufficient avail es k of
              Some n \<Rightarrow> sim_clock now (take n es)
            | None \<Rightarrow> sim_clock now es))"

definition spec_earliestStartFor :: "ServerSched \<Rightarrow> int \<Rightarrow> int \<Rightarrow> int" where
  "spec_earliestStartFor s now k =
     (let kept = filter (\<lambda>e. \<not> fst e \<le> now) (heap s);
          avail = cores_total s - sum_list (map snd kept)
      in spec_release now (sort kept) avail k)"

subsection \<open>Sequences of calls on one model\<close>

type_synonym job_args = "int \<times> int \<times> int"

definition job_end :: "job_args \<Rightarrow> int" where
  "job_end j = (case j of (start_t, c_need, est) \<Rightarrow> start_t + est)"

definition add_jobs :: "ServerSched \<Rightarrow> job_args list \<Rightarrow> ServerSched" where
  "add_jobs s js = fold (\<lambda>(start_t, c_need, est) s. snd (add_job s start_t c_need est)) js s"

definition prune_at_each :: "ServerSched \<Rightarrow> int list \<Rightarrow> ServerSched" where
  "prune_at_each s ts = fold (\<lambda>t s. prune_to_time s t) ts s"

text \<open>
  The release walk with its guard: the value of \<open>earliest_start_for\<close> on the sorted
  retained entries, from clock \<open>t\<close> and availability \<open>a\<close>.
\<close>

definition walk :: "entry list \<Rightarrow> int \<Rightarrow> int \<Rightarrow> int \<Rightarrow> int" where
  "walk es t a k = (if a \<ge> k then t else release_loop es t a k)"

subsection \<open>Candidates\<close>

text \<open>
  What \<open>visit\<close> and \<open>general_loop\<close> return when the estimate converts to a float (see
  \<open>visit_in_range\<close> and \<open>general_loop_in_range\<close>).
\<close>

definition visit_val ::
  "('r::linorder) system_info \<Rightarrow> int \<Rightarrow> int \<Rightarrow> int \<Rightarrow> server_row \<Rightarrow> sched_map
     \<Rightarrow> 'r cand \<times> sched_map" where
  "visit_val info now j_cores j_est s m =
     (let sched = (case m (srv_type s, srv_id s) of
                     None \<Rightarrow> ServerSched_init (cores_of_type info s)
                   | Some sc \<Rightarrow> sc);
          r = earliest_start_for sched now j_cores;
          boot_sec = (case type_boot info (srv_type s) of
                        None \<Rightarrow> fallback_boot_penalty info
                      | Some b \<Rightarrow> b);
          start = fst r + state_penalty_seconds (srv_state s) boot_sec
      in ((start + j_est, start, rate_bias info (srv_type s) j_est, cores_of_type info s,
           srv_type s, srv_id s),
          m((srv_type s, srv_id s) \<mapsto> snd r)))"

definition keep_best :: "('r::linorder) cand \<Rightarrow> 'r cand option \<Rightarrow> 'r cand option" where
  "keep_best c best =
     (case best of None \<Rightarrow> Some c | Some b \<Rightarrow> if tuple_lt c b then Some c else Some b)"

fun loop_val ::
  "('r::linorder) system_info \<Rightarrow> int \<Rightarrow> int \<Rightarrow> int \<Rightarrow> server_row list \<Rightarrow> sched_map
     \<Rightarrow> 'r cand option \<Rightarrow> sched_map \<times> 'r cand option" where
  "loop_val info now j_cores j_est [] m best = (m, best)"
| "loop_val info now j_cores j_est (s # caps) m best =
     loop_val info now j_cores j_est caps (snd (visit_val info now j_cores j_est s m))
       (keep_best (fst (visit_val info now j_cores j_est s m)) best)"

text \<open>
  The candidate tuple of a row, computed on the models as they are before the loop. The
  lexicographic order of the tuples is the order of their keys \<open>lex_key\<close>, in which a
  number stands for itself (NaN, which has no place in an order, is put below the
  numbers); \<open>min_candidate\<close> is the candidate with the least key.
\<close>

definition candidate ::
  "('r::linorder) system_info \<Rightarrow> sched_map \<Rightarrow> int \<Rightarrow> int \<Rightarrow> int \<Rightarrow> server_row \<Rightarrow> 'r cand" where
  "candidate info m now j_cores j_est s = fst (visit_val info now j_cores j_est s m)"

definition float_key :: "'r pyfloat \<Rightarrow> 'r option" where
  "float_key b = (case b of NaN \<Rightarrow> None | Num a \<Rightarrow> Some a)"

definition lex_key :: "'r cand \<Rightarrow> int \<times> int \<times> 'r option \<times> int \<times> string \<times> int" where
  "lex_key c = (case c of (finish, start, bias, tot, stype, sid) \<Rightarrow>
     (finish, start, float_key bias, tot, stype, sid))"

definition min_candidate ::
  "('r::linorder) system_info \<Rightarrow> sched_map \<Rightarrow> int \<Rightarrow> int \<Rightarrow> int \<Rightarrow> server_row list \<Rightarrow> 'r cand" where
  "min_candidate info m now j_cores j_est caps =
     arg_min_list lex_key (map (candidate info m now j_cores j_est) caps)"

definition cand_key :: "'r cand \<Rightarrow> srv_key" where
  "cand_key c = (case c of (finish, start, bias, tot, stype, sid) \<Rightarrow> (stype, sid))"

definition cand_start :: "'r cand \<Rightarrow> int" where
  "cand_start c = (case c of (finish, start, bias, tot, stype, sid) \<Rightarrow> start)"

definition cand_bias :: "'r cand \<Rightarrow> 'r pyfloat" where
  "cand_bias c = (case c of (finish, start, bias, tot, stype, sid) \<Rightarrow> bias)"

definition cand_rank :: "'r cand \<Rightarrow> int \<times> int \<times> 'r pyfloat \<times> int" where
  "cand_rank c = (case c of (finish, start, bias, tot, stype, sid) \<Rightarrow> (finish, start, bias, tot))"

definition fast_triple :: "'r system_info \<Rightarrow> server_row \<Rightarrow> int \<times> string \<times> int" where
  "fast_triple info s = (cores_of_type info s, srv_type s, srv_id s)"

subsection \<open>Scenario B\<close>

text \<open>
  The catalog has ``big'' (8 cores, boot time 60) and ``small'' (4 cores, boot time 0);
  both instances are tracked, and the model of ``small'' holds one earlier job \<open>(e, c)\<close>;
  ``big'' is reported inactive and ``small'' idle with 0 free cores. The cost term and
  the fallback penalty are left open.
\<close>

definition scenarioB_info :: "(string \<Rightarrow> int \<Rightarrow> 'r pyfloat) \<Rightarrow> int \<Rightarrow> 'r system_info" where
  "scenarioB_info rb fb =
     \<lparr>type_boot = [''big'' \<mapsto> 60, ''small'' \<mapsto> 0],
      type_cores = [''big'' \<mapsto> 8, ''small'' \<mapsto> 4],
      fallback_boot_penalty = fb, rate_bias = rb\<rparr>"

definition scenarioB_models :: "int \<Rightarrow> int \<Rightarrow> sched_map" where
  "scenarioB_models e c =
     [(''big'', 0) \<mapsto> \<lparr>cores_total = 8, heap = []\<rparr>,
      (''small'', 0) \<mapsto> \<lparr>cores_total = 4, heap = [(e, c)]\<rparr>]"

definition scenarioB_caps :: "server_row list" where
  "scenarioB_caps =
     [parse_server_row (''big'', 0, ''inactive'', 0, 8, 1000, 1000, 0, 0),
      parse_server_row (''small'', 0, ''idle'', 0, 0, 1000, 1000, 0, 0)]"

section \<open>Pruning\<close>

lemma filter_remove1_dropped:
  "\<not> P x \<Longrightarrow> filter P (remove1 x xs) = filter P xs"
  by (induction xs) auto

lemma heap_top_least:
  assumes "e \<in> set h"
  shows "fst (heap_top h) \<le> fst e"
proof -
  have "heap_top h \<le> e"
    using assms by (simp add: heap_top_def)
  then show ?thesis
    by (cases "heap_top h"; cases e) (auto simp: less_eq_prod_def)
qed

lemma prune_loop_filter:
  "prune_loop h now = filter (\<lambda>e. now < fst e) h"
proof (induction h now rule: prune_loop.induct)
  case (1 h now)
  show ?case
  proof (cases "h \<noteq> [] \<and> fst (heap_top h) \<le> now")
    case True
    then have "prune_loop h now = prune_loop (heappop h) now"
      by (subst prune_loop.simps) simp
    also have "\<dots> = filter (\<lambda>e. now < fst e) (heappop h)"
      using True by (rule "1.IH")
    also have "\<dots> = filter (\<lambda>e. now < fst e) h"
      unfolding heappop_def using True by (intro filter_remove1_dropped) simp
    finally show ?thesis .
  next
    case False
    then have all: "\<forall>e\<in>set h. now < fst e"
      using heap_top_least by fastforce
    from False have "prune_loop h now = h"
      by (subst prune_loop.simps) auto
    with all show ?thesis by simp
  qed
qed

text \<open>
  C2. After \<open>prune_to_time(t)\<close> every retained entry ends strictly after \<open>t\<close>, and the
  retained entries are exactly the old ones without those that end at or before \<open>t\<close>
  (as multisets, so that duplicates count); the capacity is untouched.
\<close>

theorem prune_to_time_retains:
  "(\<forall>e\<in>set (heap (prune_to_time s t)). t < fst e)
   \<and> mset (heap (prune_to_time s t)) = filter_mset (\<lambda>e. \<not> fst e \<le> t) (mset (heap s))
   \<and> mset (heap s) - mset (heap (prune_to_time s t)) = filter_mset (\<lambda>e. fst e \<le> t) (mset (heap s))
   \<and> cores_total (prune_to_time s t) = cores_total s"
proof -
  have h: "heap (prune_to_time s t) = filter (\<lambda>e. \<not> fst e \<le> t) (heap s)"
    by (simp add: prune_to_time_def prune_loop_filter not_le)
  have "mset (heap s) - filter_mset (\<lambda>e. \<not> fst e \<le> t) (mset (heap s))
        = filter_mset (\<lambda>e. fst e \<le> t) (mset (heap s))"
    by (simp add: multiset_eq_iff)
  with h show ?thesis
    by (auto simp: prune_to_time_def)
qed

theorem prune_to_time_retains_witness:
  "(12, 1) \<in> set (heap (prune_to_time \<lparr>cores_total = 4, heap = [(12, 1), (5, 2), (10, 1)]\<rparr> 10))
   \<and> (10 :: int) < fst (12 :: int, 1 :: int)
   \<and> heap (prune_to_time \<lparr>cores_total = 4, heap = [(12, 1), (5, 2), (10, 1)]\<rparr> 10) = [(12, 1)]"
proof -
  let ?s = "\<lparr>cores_total = 4, heap = [(12, 1), (5, 2), (10, 1)]\<rparr>"
  have m: "mset (heap (prune_to_time ?s 10)) = {#(12, 1)#}"
    using prune_to_time_retains [of ?s 10] by simp
  then have "heap (prune_to_time ?s 10) = [(12, 1)]"
    by (metis mset_single_iff_right)
  then show ?thesis by simp
qed

section \<open>The earliest start\<close>

lemma find_map_comp:
  "find P (map f xs) = map_option f (find (P \<circ> f) xs)"
  by (induction xs) auto

lemma first_sufficient_Cons:
  "first_sufficient a ((e, c) # es) k =
     (if a + c \<ge> k then Some 1 else map_option Suc (first_sufficient (a + c) es k))"
proof -
  have "[1..<Suc (Suc (length es))] = 1 # map Suc [1..<Suc (length es)]"
    by (simp add: map_Suc_upt upt_conv_Cons del: upt_Suc)
  then show ?thesis
    by (simp add: first_sufficient_def find_map_comp sim_avail_def comp_def add.assoc del: upt_Suc)
qed

lemma release_loop_first_sufficient:
  "release_loop es t a k =
     (case first_sufficient a es k of
        Some n \<Rightarrow> sim_clock t (take n es)
      | None \<Rightarrow> sim_clock t es)"
proof (induction es arbitrary: t a)
  case Nil
  then show ?case by (simp add: first_sufficient_def sim_clock_def)
next
  case (Cons x es)
  obtain e c where x: "x = (e, c)" by (cases x)
  have m: "(if t < e then e else t) = max t e" by (simp add: max_def)
  show ?case
    unfolding x first_sufficient_Cons
    by (simp add: Cons.IH m sim_clock_def Let_def split: option.splits)
qed

lemma release_loop_ge: "t \<le> release_loop es t a k"
proof (induction es arbitrary: t a)
  case Nil
  show ?case by simp
next
  case (Cons x es)
  obtain e c where x: "x = (e, c)" by (cases x)
  have "t \<le> release_loop es (if t < e then e else t) (a + c) k"
    using Cons.IH [of "if t < e then e else t" "a + c"] by (simp split: if_splits)
  then show ?case by (simp add: x Let_def)
qed

lemma walk_ge: "t \<le> walk es t a k"
  by (simp add: walk_def release_loop_ge)

lemma walk_Cons:
  "walk ((e, c) # es) t a k = (if a \<ge> k then t else walk es (max t e) (a + c) k)"
  by (simp add: walk_def Let_def max_def)

lemma walk_enough: "k \<le> a \<Longrightarrow> walk es t a k = t"
  by (simp add: walk_def)

lemma earliest_start_for_walk:
  "fst (earliest_start_for s now k) =
     walk (sort (filter (\<lambda>e. now < fst e) (heap s))) now
       (cores_total s - sum_list (map snd (filter (\<lambda>e. now < fst e) (heap s)))) k"
  by (simp add: earliest_start_for_def prune_to_time_def prune_loop_filter running_cores_def
      walk_def Let_def)

lemma walk_swap:
  assumes "fst x = fst y" and "0 \<le> snd x" and "0 \<le> snd y"
  shows "walk (x # y # zs) t a k = walk (y # x # zs) t a k"
proof -
  obtain e cx where x: "x = (e, cx)" by (cases x)
  with assms(1) obtain cy where y: "y = (e, cy)" by (cases y) auto
  from assms(2,3) show ?thesis
    unfolding x y by (auto simp: walk_Cons walk_enough add.commute add.left_commute)
qed

lemma walk_insort_front:
  assumes "\<forall>y\<in>set ys. fst x \<le> fst y" and "0 \<le> snd x" and "\<forall>y\<in>set ys. 0 \<le> snd y"
  shows "walk (insort x ys) t a k = walk (x # ys) t a k"
  using assms
proof (induction ys arbitrary: t a)
  case Nil
  show ?case by simp
next
  case (Cons y ys)
  show ?case
  proof (cases "x \<le> y")
    case True
    then show ?thesis by simp
  next
    case False
    then have "y \<le> x" by simp
    then have "fst y \<le> fst x"
      by (cases x; cases y) (auto simp: less_eq_prod_def)
    with Cons.prems(1) have same: "fst x = fst y" by simp
    obtain e c where y: "y = (e, c)" by (cases y)
    have ih: "walk (insort x ys) t' a' k = walk (x # ys) t' a' k" for t' a'
      using Cons.prems by (intro Cons.IH) simp_all
    have "walk (insort x (y # ys)) t a k = walk (y # insort x ys) t a k"
      using False by simp
    also have "\<dots> = walk (y # x # ys) t a k"
      unfolding y by (simp add: walk_Cons ih)
    also have "\<dots> = walk (x # y # ys) t a k"
      using same Cons.prems by (intro walk_swap) simp_all
    finally show ?thesis .
  qed
qed

lemma walk_sort:
  assumes "sorted (map fst es)" and "\<forall>e\<in>set es. 0 \<le> snd e"
  shows "walk (sort es) t a k = walk es t a k"
  using assms
proof (induction es arbitrary: t a)
  case Nil
  show ?case by simp
next
  case (Cons x es)
  obtain e c where x: "x = (e, c)" by (cases x)
  from Cons.prems have low: "\<forall>y\<in>set (sort es). fst x \<le> fst y"
    and nn: "0 \<le> snd x" "\<forall>y\<in>set (sort es). 0 \<le> snd y"
    and rest: "sorted (map fst es)" "\<forall>e\<in>set es. 0 \<le> snd e"
    by auto
  have "walk (sort (x # es)) t a k = walk (x # sort es) t a k"
    using low nn by (simp add: walk_insort_front)
  also have "\<dots> = walk (x # es) t a k"
    unfolding x by (simp add: walk_Cons Cons.IH [OF rest])
  finally show ?case .
qed

lemma walk_release_order:
  assumes "mset es = mset kept" and "sorted (map fst es)" and "\<forall>e\<in>set kept. 0 \<le> snd e"
  shows "walk es t a k = walk (sort kept) t a k"
proof -
  from assms(1) have "set es = set kept" by (rule mset_eq_setD)
  with assms(3) have "\<forall>e\<in>set es. 0 \<le> snd e" by simp
  with assms(2) have "walk (sort es) t a k = walk es t a k" by (rule walk_sort)
  moreover have "sort es = sort kept"
    using assms(1) by (intro properties_for_sort) simp_all
  ultimately show ?thesis by simp
qed

lemma walk_spec_release: "walk es t a k = spec_release t es a k"
  by (simp add: walk_def spec_release_def release_loop_first_sufficient)

text \<open>
  C1. \<open>earliest_start_for(now, coresNeeded)\<close> leaves the model pruned to \<open>now\<close> and
  returns what the specification describes: \<open>now\<close> when the capacity minus the retained
  cores meets the demand; otherwise the simulated clock at the first prefix of the
  retained entries, sorted as Python sorts the tuples (which is non-decreasing in the end
  time), whose accumulated availability meets the demand, and the clock after the last
  entry when no prefix does. When no retained entry has a negative number of cores, the
  same holds for every arrangement of the retained entries that is non-decreasing in
  the end time.
\<close>

theorem earliest_start_for_as_specified:
  "snd (earliest_start_for s now k) = s\<lparr>heap := filter (\<lambda>e. \<not> fst e \<le> now) (heap s)\<rparr>
   \<and> fst (earliest_start_for s now k) = spec_earliestStartFor s now k
   \<and> sorted (map fst (sort (filter (\<lambda>e. \<not> fst e \<le> now) (heap s))))
   \<and> (\<forall>es. mset es = mset (filter (\<lambda>e. \<not> fst e \<le> now) (heap s))
             \<and> sorted (map fst es)
             \<and> (\<forall>e\<in>set (filter (\<lambda>e. \<not> fst e \<le> now) (heap s)). 0 \<le> snd e) \<longrightarrow>
          fst (earliest_start_for s now k)
            = spec_release now es
                (cores_total s - sum_list (map snd (filter (\<lambda>e. \<not> fst e \<le> now) (heap s)))) k)"
proof -
  let ?kept = "filter (\<lambda>e. \<not> fst e \<le> now) (heap s)"
  let ?avail = "cores_total s - sum_list (map snd ?kept)"
  have h: "prune_to_time s now = s\<lparr>heap := ?kept\<rparr>"
    by (simp add: prune_to_time_def prune_loop_filter not_le)
  have "sorted_wrt (\<lambda>x y. fst x \<le> fst y) (sort xs)" for xs :: "entry list"
    by (rule sorted_wrt_mono_rel [where P = "(\<le>)"]) (auto simp: less_eq_prod_def)
  then have srt: "sorted (map fst (sort ?kept))"
    by (simp add: sorted_map)
  have v: "fst (earliest_start_for s now k) = walk (sort ?kept) now ?avail k"
    by (simp add: earliest_start_for_walk not_le)
  have 1: "snd (earliest_start_for s now k) = s\<lparr>heap := ?kept\<rparr>"
    by (simp add: earliest_start_for_def h Let_def)
  have 2: "fst (earliest_start_for s now k) = spec_earliestStartFor s now k"
    by (simp add: v walk_spec_release spec_earliestStartFor_def Let_def)
  have 3: "fst (earliest_start_for s now k) = spec_release now es ?avail k"
    if "mset es = mset ?kept" and "sorted (map fst es)" and "\<forall>e\<in>set ?kept. 0 \<le> snd e" for es
  proof -
    from that have "walk es now ?avail k = walk (sort ?kept) now ?avail k"
      by (rule walk_release_order)
    with v show ?thesis by (simp add: walk_spec_release)
  qed
  from 1 2 srt 3 show ?thesis by blast
qed

theorem earliest_start_for_as_specified_witness:
  "mset [(20, 3), (20, 1)]
     = mset (filter (\<lambda>e. \<not> fst e \<le> 10) (heap \<lparr>cores_total = 4, heap = [(5, 1), (20, 1), (20, 3)]\<rparr>))
   \<and> sorted (map fst [(20 :: int, 3 :: int), (20, 1)])
   \<and> fst (earliest_start_for \<lparr>cores_total = 4, heap = [(5, 1), (20, 1), (20, 3)]\<rparr> 10 3)
       = spec_release 10 [(20, 3), (20, 1)] 0 3
   \<and> spec_release 10 [(20, 3), (20, 1)] 0 3 = 20"
proof -
  let ?s = "\<lparr>cores_total = 4, heap = [(5, 1), (20, 1), (20, 3)]\<rparr>"
  have a: "mset [(20, 3), (20, 1)] = mset (filter (\<lambda>e. \<not> fst e \<le> 10) (heap ?s))"
    and b: "sorted (map fst [(20 :: int, 3 :: int), (20, 1)])"
    and c: "\<forall>e\<in>set (filter (\<lambda>e. \<not> fst e \<le> 10) (heap ?s)). 0 \<le> snd e"
    by simp_all
  have d: "spec_release 10 [(20, 3), (20, 1)] 0 3 = 20"
    by (simp add: spec_release_def first_sufficient_def sim_avail_def sim_clock_def)
  from earliest_start_for_as_specified [of ?s 10 3]
  have "\<forall>es. mset es = mset (filter (\<lambda>e. \<not> fst e \<le> 10) (heap ?s))
             \<and> sorted (map fst es)
             \<and> (\<forall>e\<in>set (filter (\<lambda>e. \<not> fst e \<le> 10) (heap ?s)). 0 \<le> snd e) \<longrightarrow>
          fst (earliest_start_for ?s 10 3)
            = spec_release 10 es
                (cores_total ?s - sum_list (map snd (filter (\<lambda>e. \<not> fst e \<le> 10) (heap ?s)))) 3"
    by blast
  with a b c
  have "fst (earliest_start_for ?s 10 3)
          = spec_release 10 [(20, 3), (20, 1)]
              (cores_total ?s - sum_list (map snd (filter (\<lambda>e. \<not> fst e \<le> 10) (heap ?s)))) 3"
    by blast
  then have "fst (earliest_start_for ?s 10 3) = spec_release 10 [(20, 3), (20, 1)] 0 3"
    by simp
  with a b d show ?thesis by simp
qed

text \<open>
  C10. The value of \<open>earliest_start_for(now, c_need)\<close> is never before \<open>now\<close>, and it is
  exactly \<open>now\<close> when the timeline is empty after pruning, whatever \<open>c_need\<close> is, also
  beyond the capacity.
\<close>

theorem earliest_start_for_ge_now:
  "now \<le> fst (earliest_start_for s now c_need)
   \<and> (heap (prune_to_time s now) = [] \<longrightarrow> fst (earliest_start_for s now c_need) = now)"
proof (intro conjI impI)
  show "now \<le> fst (earliest_start_for s now c_need)"
    unfolding earliest_start_for_walk by (rule walk_ge)
next
  assume "heap (prune_to_time s now) = []"
  then have "release_loop (sort (heap (prune_to_time s now))) now a c_need = now" for a
    by simp
  then show "fst (earliest_start_for s now c_need) = now"
    by (simp add: earliest_start_for_def Let_def)
qed

theorem earliest_start_for_ge_now_witness:
  "heap (prune_to_time \<lparr>cores_total = 4, heap = [(5, 2), (10, 4)]\<rparr> 10) = []
   \<and> cores_total \<lparr>cores_total = 4, heap = [(5, 2), (10, 4)]\<rparr> < 9
   \<and> fst (earliest_start_for \<lparr>cores_total = 4, heap = [(5, 2), (10, 4)]\<rparr> 10 9) = 10"
proof -
  let ?s = "\<lparr>cores_total = 4, heap = [(5, 2), (10, 4)]\<rparr>"
  have e: "heap (prune_to_time ?s 10) = []"
    by (simp add: prune_to_time_def prune_loop_filter)
  with earliest_start_for_ge_now [of 10 ?s 9] show ?thesis by simp
qed

section \<open>Monotonicity of the earliest start\<close>

lemma walk_mono_need: "k1 \<le> k2 \<Longrightarrow> walk es t a k1 \<le> walk es t a k2"
proof (induction es arbitrary: t a)
  case Nil
  then show ?case by (simp add: walk_def)
next
  case (Cons x es)
  obtain e c where x: "x = (e, c)" by (cases x)
  from Cons.prems Cons.IH [of "max t e" "a + c"] walk_ge [of "max t e" es "a + c" k2]
  show ?case
    unfolding x walk_Cons by auto
qed

lemma walk_mono_clock: "t1 \<le> t2 \<Longrightarrow> walk es t1 a k \<le> walk es t2 a k"
proof (induction es arbitrary: t1 t2 a)
  case Nil
  then show ?case by (simp add: walk_def)
next
  case (Cons x es)
  obtain e c where x: "x = (e, c)" by (cases x)
  from Cons.prems have "max t1 e \<le> max t2 e" by simp
  from Cons.IH [OF this] Cons.prems show ?case
    unfolding x walk_Cons by simp
qed

lemma walk_insort:
  assumes "0 \<le> c"
  shows "walk es t a k \<le> walk (insort (e, c) es) t (a - c) k"
proof (induction es arbitrary: t a)
  case Nil
  from assms show ?case by (simp add: walk_def Let_def)
next
  case (Cons x es)
  obtain e1 c1 where x: "x = (e1, c1)" by (cases x)
  show ?case
  proof (cases "(e, c) \<le> (e1, c1)")
    case True
    have "walk ((e1, c1) # es) t a k \<le> walk ((e1, c1) # es) (max t e) a k"
      by (rule walk_mono_clock) simp
    with True assms show ?thesis
      unfolding x by (auto simp: walk_Cons [of e c] walk_enough)
  next
    case False
    have "walk es (max t e1) (a + c1) k \<le> walk (insort (e, c) es) (max t e1) (a + c1 - c) k"
      by (rule Cons.IH)
    moreover have "a + c1 - c = a - c + c1" by simp
    ultimately show ?thesis
      using False assms walk_ge [of "max t e1" "insort (e, c) es" "a - c + c1" k]
      unfolding x by (auto simp: walk_Cons)
  qed
qed

text \<open>
  C4. For a fixed model and a fixed \<open>now\<close>, \<open>earliest_start_for(now, k)\<close> does not
  decrease when \<open>k\<close> grows; and for fixed \<open>k\<close> and \<open>now\<close> it does not decrease when a
  job is added to the model with \<open>add_job\<close>, the job occupying \<open>c \<ge> 0\<close> cores, which is
  what adding committed load means.
\<close>

theorem earliest_start_for_monotone:
  "(k1 \<le> k2 \<longrightarrow> fst (earliest_start_for s now k1) \<le> fst (earliest_start_for s now k2))
   \<and> (0 \<le> c \<longrightarrow>
        fst (earliest_start_for s now k)
          \<le> fst (earliest_start_for (snd (add_job s start_t c est)) now k))"
proof (intro conjI impI)
  assume "k1 \<le> k2"
  then show "fst (earliest_start_for s now k1) \<le> fst (earliest_start_for s now k2)"
    unfolding earliest_start_for_walk by (rule walk_mono_need)
next
  assume c: "0 \<le> c"
  let ?P = "\<lambda>e :: entry. now < fst e"
  let ?s' = "snd (add_job s start_t c est)"
  have hs': "heap ?s' = heap s @ [(start_t + est, c)]" and ct: "cores_total ?s' = cores_total s"
    by (simp_all add: add_job_def heappush_def Let_def)
  show "fst (earliest_start_for s now k) \<le> fst (earliest_start_for ?s' now k)"
  proof (cases "now < start_t + est")
    case False
    then have "filter ?P (heap ?s') = filter ?P (heap s)"
      by (simp add: hs')
    then show ?thesis
      by (simp add: earliest_start_for_walk ct)
  next
    case True
    then have f: "filter ?P (heap ?s') = filter ?P (heap s) @ [(start_t + est, c)]"
      by (simp add: hs')
    have "sort (filter ?P (heap s) @ [(start_t + est, c)])
          = insort (start_t + est, c) (sort (filter ?P (heap s)))"
      by (rule properties_for_sort) (simp_all add: sorted_insort)
    with walk_insort [OF c, of "sort (filter ?P (heap s))" now
        "cores_total s - sum_list (map snd (filter ?P (heap s)))" k "start_t + est"]
    show ?thesis
      by (simp add: earliest_start_for_walk ct f diff_diff_eq)
  qed
qed

theorem earliest_start_for_monotone_witness:
  "(1 :: int) \<le> 2
   \<and> fst (earliest_start_for \<lparr>cores_total = 4, heap = [(20, 3)]\<rparr> 10 1) = 10
   \<and> fst (earliest_start_for \<lparr>cores_total = 4, heap = [(20, 3)]\<rparr> 10 2) = 20
   \<and> (0 :: int) \<le> 2
   \<and> fst (earliest_start_for \<lparr>cores_total = 4, heap = [(20, 3)]\<rparr> 10 1)
       \<le> fst (earliest_start_for (snd (add_job \<lparr>cores_total = 4, heap = [(20, 3)]\<rparr> 10 2 5)) 10 1)
   \<and> fst (earliest_start_for (snd (add_job \<lparr>cores_total = 4, heap = [(20, 3)]\<rparr> 10 2 5)) 10 1) = 15"
proof -
  let ?s = "\<lparr>cores_total = 4, heap = [(20, 3)]\<rparr>"
  have v: "fst (earliest_start_for ?s 10 1) = 10" "fst (earliest_start_for ?s 10 2) = 20"
    "fst (earliest_start_for (snd (add_job ?s 10 2 5)) 10 1) = 15"
    by (simp_all add: earliest_start_for_def prune_to_time_def prune_loop_filter running_cores_def
        add_job_def heappush_def Let_def)
  from earliest_start_for_monotone [of 1 2 ?s 10 2 1 10 5] v show ?thesis by simp
qed

section \<open>Adding jobs and pruning at their ends\<close>

lemma heap_add_jobs:
  "heap (add_jobs s js) = heap s @ map (\<lambda>j. (job_end j, fst (snd j))) js"
proof (induction js arbitrary: s)
  case Nil
  show ?case by (simp add: add_jobs_def)
next
  case (Cons j js)
  obtain start_t c_need est where j: "j = (start_t, c_need, est)" by (cases j)
  have "add_jobs s (j # js) = add_jobs (snd (add_job s start_t c_need est)) js"
    by (simp add: add_jobs_def j)
  then show ?case
    by (simp add: j Cons.IH add_job_def heappush_def job_end_def Let_def)
qed

lemma heap_prune_at_each:
  "heap (prune_at_each s ts) = filter (\<lambda>e. \<forall>t\<in>set ts. t < fst e) (heap s)"
proof (induction ts arbitrary: s)
  case Nil
  show ?case by (simp add: prune_at_each_def)
next
  case (Cons t ts)
  have "filter (\<lambda>e. \<forall>u\<in>set ts. u < fst e) (filter (\<lambda>e. t < fst e) (heap s))
        = filter (\<lambda>e. \<forall>u\<in>set (t # ts). u < fst e) (heap s)"
    by (auto intro: filter_cong)
  moreover have "prune_at_each s (t # ts) = prune_at_each (prune_to_time s t) ts"
    by (simp add: prune_at_each_def)
  ultimately show ?case
    by (simp add: Cons.IH prune_to_time_def prune_loop_filter)
qed

text \<open>
  C7. On a new model, after any sequence of \<open>add_job\<close> calls followed by
  \<open>prune_to_time\<close> at the end time of each added job, in the order in which the jobs
  end, \<open>running_cores()\<close> is 0.
\<close>

theorem add_then_prune_round_trip:
  "running_cores (prune_at_each (add_jobs (ServerSched_init n) js) (sort (map job_end js))) = 0"
proof -
  have "filter (\<lambda>e. \<forall>t\<in>set (map job_end js). t < fst e) (map (\<lambda>j. (job_end j, fst (snd j))) js) = []"
    by (auto simp: filter_empty_conv)
  then show ?thesis
    by (simp add: running_cores_def heap_prune_at_each heap_add_jobs ServerSched_init_def)
qed

section \<open>The general path\<close>

lemma visit_in_range:
  "\<not> int_too_large j_est \<Longrightarrow>
     visit info now j_cores j_est s m = Inr (visit_val info now j_cores j_est s m)"
  by (simp add: visit_def visit_val_def Let_def split: prod.splits)

lemma visit_overflow:
  "int_too_large j_est \<Longrightarrow> visit info now j_cores j_est s m = Inl OverflowError"
  by (simp add: visit_def Let_def split: prod.splits)

lemma general_loop_in_range:
  "\<not> int_too_large j_est \<Longrightarrow>
     general_loop info now j_cores j_est caps m best
       = Inr (loop_val info now j_cores j_est caps m best)"
proof (induction caps arbitrary: m best)
  case Nil
  show ?case by simp
next
  case (Cons s caps)
  obtain c m' where v: "visit_val info now j_cores j_est s m = (c, m')"
    by (cases "visit_val info now j_cores j_est s m")
  from Cons.prems show ?case
    by (simp add: visit_in_range v Cons.IH keep_best_def)
qed

lemma general_loop_overflow:
  "int_too_large j_est \<Longrightarrow> caps \<noteq> [] \<Longrightarrow>
     general_loop info now j_cores j_est caps m best = Inl OverflowError"
  by (cases caps) (simp_all add: visit_overflow)

lemma visit_key_only:
  "m (srv_key_of s) = m0 (srv_key_of s) \<Longrightarrow>
     fst (visit_val info now jc je s m) = fst (visit_val info now jc je s m0)"
  by (simp add: visit_val_def srv_key_of_def Let_def)

lemma visit_other_key:
  "k \<noteq> srv_key_of s \<Longrightarrow> snd (visit_val info now jc je s m) k = m k"
  by (auto simp: visit_val_def srv_key_of_def Let_def)

lemma visit_tracks:
  "snd (visit_val info now jc je s m) (srv_key_of s) \<noteq> None"
  by (simp add: visit_val_def srv_key_of_def Let_def)

lemma visit_new_value:
  "m (srv_key_of s) = m0 (srv_key_of s) \<Longrightarrow>
     snd (visit_val info now jc je s m) (srv_key_of s)
       = snd (visit_val info now jc je s m0) (srv_key_of s)"
  by (simp add: visit_val_def srv_key_of_def Let_def)

lemma cand_key_visit:
  "cand_key (fst (visit_val info now jc je s m)) = srv_key_of s"
  by (simp add: visit_val_def srv_key_of_def cand_key_def Let_def)

lemma cand_bias_visit:
  "cand_bias (fst (visit_val info now jc je s m)) = rate_bias info (srv_type s) je"
  by (simp add: visit_val_def cand_bias_def Let_def)

lemma cand_key_candidate: "cand_key (candidate info m now jc je s) = srv_key_of s"
  by (simp add: candidate_def cand_key_visit)

lemma cand_bias_candidate:
  "cand_bias (candidate info m now jc je s) = rate_bias info (srv_type s) je"
  by (simp add: candidate_def cand_bias_visit)

lemma loop_val_best:
  assumes "distinct (map srv_key_of caps)"
    and "\<forall>s\<in>set caps. m (srv_key_of s) = m0 (srv_key_of s)"
  shows "snd (loop_val info now jc je caps m best)
         = fold keep_best (map (candidate info m0 now jc je) caps) best"
  using assms
proof (induction caps arbitrary: m best)
  case Nil
  show ?case by simp
next
  case (Cons s caps)
  let ?m' = "snd (visit_val info now jc je s m)"
  have c: "fst (visit_val info now jc je s m) = candidate info m0 now jc je s"
    unfolding candidate_def using Cons.prems(2) by (intro visit_key_only) simp
  have agree: "\<forall>s'\<in>set caps. ?m' (srv_key_of s') = m0 (srv_key_of s')"
  proof
    fix s' assume s': "s' \<in> set caps"
    from Cons.prems(1) have "srv_key_of s \<notin> srv_key_of ` set caps" by simp
    with s' have "srv_key_of s' \<noteq> srv_key_of s" by (metis imageI)
    then have "?m' (srv_key_of s') = m (srv_key_of s')" by (rule visit_other_key)
    with Cons.prems(2) s' show "?m' (srv_key_of s') = m0 (srv_key_of s')" by simp
  qed
  from Cons.prems(1) have "distinct (map srv_key_of caps)" by simp
  from this agree have "snd (loop_val info now jc je caps ?m' (keep_best (candidate info m0 now jc je s) best))
      = fold keep_best (map (candidate info m0 now jc je) caps) (keep_best (candidate info m0 now jc je s) best)"
    by (rule Cons.IH)
  then show ?case
    by (simp add: c)
qed

lemma loop_val_keeps:
  "m k \<noteq> None \<Longrightarrow> fst (loop_val info now jc je caps m best) k \<noteq> None"
proof (induction caps arbitrary: m best)
  case Nil
  then show ?case by simp
next
  case (Cons s caps)
  have "snd (visit_val info now jc je s m) k \<noteq> None"
    using Cons.prems visit_other_key [of k s info now jc je m] visit_tracks [of info now jc je s m]
    by (cases "k = srv_key_of s") auto
  then show ?case by (simp add: Cons.IH)
qed

lemma loop_val_tracks:
  "k \<in> srv_key_of ` set caps \<Longrightarrow> fst (loop_val info now jc je caps m best) k \<noteq> None"
proof (induction caps arbitrary: m best)
  case Nil
  then show ?case by simp
next
  case (Cons s caps)
  show ?case
  proof (cases "k \<in> srv_key_of ` set caps")
    case True
    then show ?thesis by (simp add: Cons.IH)
  next
    case False
    with Cons.prems have k: "k = srv_key_of s" by auto
    show ?thesis
      unfolding loop_val.simps k by (intro loop_val_keeps visit_tracks)
  qed
qed

lemma loop_val_untouched:
  "k \<notin> srv_key_of ` set caps \<Longrightarrow> fst (loop_val info now jc je caps m best) k = m k"
proof (induction caps arbitrary: m best)
  case Nil
  show ?case by simp
next
  case (Cons s caps)
  then have "k \<noteq> srv_key_of s" and "k \<notin> srv_key_of ` set caps" by auto
  then show ?case
    by (simp add: Cons.IH visit_other_key)
qed

lemma loop_val_visited:
  assumes "distinct (map srv_key_of caps)" and "s \<in> set caps"
  shows "fst (loop_val info now jc je caps m best) (srv_key_of s)
         = snd (visit_val info now jc je s m) (srv_key_of s)"
  using assms
proof (induction caps arbitrary: m best)
  case Nil
  then show ?case by simp
next
  case (Cons s0 caps)
  from Cons.prems(1) have fresh: "srv_key_of s0 \<notin> srv_key_of ` set caps"
    and d: "distinct (map srv_key_of caps)" by simp_all
  show ?case
  proof (cases "s \<in> set caps")
    case True
    with fresh have "srv_key_of s \<noteq> srv_key_of s0" by (metis imageI)
    then have "snd (visit_val info now jc je s0 m) (srv_key_of s) = m (srv_key_of s)"
      by (rule visit_other_key)
    then have "snd (visit_val info now jc je s (snd (visit_val info now jc je s0 m))) (srv_key_of s)
               = snd (visit_val info now jc je s m) (srv_key_of s)"
      by (rule visit_new_value)
    with Cons.IH [OF d True] show ?thesis
      by simp
  next
    case False
    with Cons.prems(2) have "s = s0" by simp
    with fresh show ?thesis
      by (simp add: loop_val_untouched)
  qed
qed

lemma loop_val_models_perm:
  assumes "distinct (map srv_key_of caps)" and "mset caps' = mset caps"
  shows "fst (loop_val info now jc je caps' m best') = fst (loop_val info now jc je caps m best)"
proof
  fix k
  have s: "set caps' = set caps"
    using assms(2) by (rule mset_eq_setD)
  have "mset (map srv_key_of caps') = mset (map srv_key_of caps)"
    using assms(2) by simp
  with assms(1) have d': "distinct (map srv_key_of caps')"
    by (metis mset_eq_imp_distinct_iff)
  show "fst (loop_val info now jc je caps' m best') k = fst (loop_val info now jc je caps m best) k"
  proof (cases "k \<in> srv_key_of ` set caps")
    case True
    then obtain s where "s \<in> set caps" and "k = srv_key_of s" by auto
    with s assms(1) d' show ?thesis
      by (simp add: loop_val_visited)
  next
    case False
    with s show ?thesis
      by (simp add: loop_val_untouched)
  qed
qed

text \<open>Without NaN, Python's comparison of two tuples is the lexicographic order.\<close>

lemma tuple_lt_lex:
  assumes "cand_bias x \<noteq> NaN" and "cand_bias y \<noteq> NaN"
  shows "tuple_lt x y \<longleftrightarrow> lex_key x < lex_key y"
proof -
  obtain f1 s1 b1 c1 t1 i1 where x: "x = (f1, s1, b1, c1, t1, i1)" by (cases x)
  obtain f2 s2 b2 c2 t2 i2 where y: "y = (f2, s2, b2, c2, t2, i2)" by (cases y)
  from assms obtain a1 a2 where b: "b1 = Num a1" "b2 = Num a2"
    unfolding x y cand_bias_def by (cases b1; cases b2) auto
  show ?thesis
    unfolding x y b
    by (auto simp: tuple_lt_def lex_key_def float_key_def less_prod_def)
qed

lemma lex_key_inj: "lex_key x = lex_key y \<Longrightarrow> cand_key x = cand_key y"
  by (cases x; cases y) (simp add: lex_key_def cand_key_def)

lemma fold_keep_best_Some:
  assumes "\<forall>c\<in>set cs. cand_bias c \<noteq> NaN" and "cand_bias b \<noteq> NaN"
  shows "\<exists>c\<in>insert b (set cs). fold keep_best cs (Some b) = Some c
           \<and> lex_key c = Min (lex_key ` insert b (set cs))"
  using assms
proof (induction cs arbitrary: b)
  case Nil
  show ?case by simp
next
  case (Cons x cs)
  let ?b' = "if tuple_lt x b then x else b"
  have kb: "keep_best x (Some b) = Some ?b'"
    by (simp add: keep_best_def)
  from Cons.prems have nn: "cand_bias ?b' \<noteq> NaN" and rest: "\<forall>c\<in>set cs. cand_bias c \<noteq> NaN"
    by simp_all
  from Cons.prems have "tuple_lt x b \<longleftrightarrow> lex_key x < lex_key b"
    by (intro tuple_lt_lex) simp_all
  then have k: "lex_key ?b' = min (lex_key x) (lex_key b)"
    by (auto simp: min_def)
  from Cons.IH [OF rest nn]
  obtain c where c: "c \<in> insert ?b' (set cs)" "fold keep_best cs (Some ?b') = Some c"
    "lex_key c = Min (lex_key ` insert ?b' (set cs))"
    by blast
  have "Min (lex_key ` insert ?b' (set cs)) = Min (lex_key ` insert b (set (x # cs)))"
  proof (cases "set cs = {}")
    case True
    then show ?thesis by (simp add: k min.commute)
  next
    case False
    then show ?thesis by (simp add: k ac_simps)
  qed
  with c have "lex_key c = Min (lex_key ` insert b (set (x # cs)))" by simp
  moreover from c(1) have "c \<in> insert b (set (x # cs))" by (auto split: if_splits)
  moreover from c(2) have "fold keep_best (x # cs) (Some b) = Some c" by (simp add: kb)
  ultimately show ?case by blast
qed

lemma fold_keep_best_None:
  assumes "cs \<noteq> []" and "\<forall>c\<in>set cs. cand_bias c \<noteq> NaN"
  shows "\<exists>c\<in>set cs. fold keep_best cs None = Some c \<and> lex_key c = Min (lex_key ` set cs)"
proof -
  from assms(1) obtain b cs' where cs: "cs = b # cs'" by (cases cs) auto
  with assms(2) have "\<forall>c\<in>set cs'. cand_bias c \<noteq> NaN" and "cand_bias b \<noteq> NaN" by simp_all
  from fold_keep_best_Some [OF this] show ?thesis
    unfolding cs by (simp add: keep_best_def)
qed

lemma min_candidate_in:
  assumes "caps \<noteq> []"
  shows "\<exists>s\<in>set caps. min_candidate info m now jc je caps = candidate info m now jc je s"
proof -
  from assms have "map (candidate info m now jc je) caps \<noteq> []" by simp
  then have "min_candidate info m now jc je caps \<in> set (map (candidate info m now jc je) caps)"
    unfolding min_candidate_def by (rule arg_min_list_in)
  then show ?thesis by auto
qed

lemma min_candidate_least:
  assumes "s \<in> set caps"
  shows "lex_key (min_candidate info m now jc je caps) \<le> lex_key (candidate info m now jc je s)"
proof -
  from assms have ne: "map (candidate info m now jc je) caps \<noteq> []" by auto
  have "lex_key (min_candidate info m now jc je caps)
        = Min (lex_key ` set (map (candidate info m now jc je) caps))"
    unfolding min_candidate_def using ne by (rule f_arg_min_list_f)
  also have "\<dots> \<le> lex_key (candidate info m now jc je s)"
    using assms by (intro Min_le) simp_all
  finally show ?thesis .
qed

lemma candidate_key_inj:
  assumes "distinct (map srv_key_of caps)" and "s1 \<in> set caps" and "s2 \<in> set caps"
    and "lex_key (candidate info m now jc je s1) = lex_key (candidate info m now jc je s2)"
  shows "s1 = s2"
proof -
  from assms(4) have "srv_key_of s1 = srv_key_of s2"
    using lex_key_inj cand_key_candidate by metis
  moreover from assms(1) have "inj_on srv_key_of (set caps)"
    by (simp add: distinct_map)
  ultimately show ?thesis
    using assms(2,3) by (auto dest: inj_onD)
qed

lemma loop_val_min:
  assumes "caps \<noteq> []" and "distinct (map srv_key_of caps)"
    and "\<forall>s\<in>set caps. rate_bias info (srv_type s) je \<noteq> NaN"
  shows "snd (loop_val info now jc je caps m None) = Some (min_candidate info m now jc je caps)"
proof -
  let ?cs = "map (candidate info m now jc je) caps"
  have l: "snd (loop_val info now jc je caps m None) = fold keep_best ?cs None"
    using assms(2) by (intro loop_val_best) simp_all
  have "?cs \<noteq> []" using assms(1) by simp
  moreover have "\<forall>c\<in>set ?cs. cand_bias c \<noteq> NaN"
    using assms(3) by (auto simp: cand_bias_candidate)
  ultimately obtain c where c: "c \<in> set ?cs" "fold keep_best ?cs None = Some c"
    "lex_key c = Min (lex_key ` set ?cs)"
    using fold_keep_best_None [of ?cs] by blast
  from c(1) obtain s where s: "s \<in> set caps" "c = candidate info m now jc je s" by auto
  obtain sb where sb: "sb \<in> set caps"
    "min_candidate info m now jc je caps = candidate info m now jc je sb"
    using min_candidate_in [OF assms(1)] by blast
  have "lex_key (min_candidate info m now jc je caps) = Min (lex_key ` set ?cs)"
    unfolding min_candidate_def using \<open>?cs \<noteq> []\<close> by (rule f_arg_min_list_f)
  with c(3) s(2) sb(2)
  have "lex_key (candidate info m now jc je s) = lex_key (candidate info m now jc je sb)"
    by simp
  with assms(2) s(1) sb(1) have "s = sb" by (rule candidate_key_inj)
  with l c(2) s(2) sb(2) show ?thesis by simp
qed

lemma place_job_general:
  assumes "caps \<noteq> []" and "distinct (map srv_key_of caps)" and "instant_of jc caps = []"
    and "\<not> int_too_large je"
    and "\<forall>s\<in>set caps. rate_bias info (srv_type s) je \<noteq> NaN"
  shows "place_job info m job_id now jc je caps =
           ([SCHD job_id (fst (cand_key (min_candidate info m now jc je caps)))
                         (snd (cand_key (min_candidate info m now jc je caps)))],
            record_job (fst (loop_val info now jc je caps m None))
              (cand_key (min_candidate info m now jc je caps))
              (cand_start (min_candidate info m now jc je caps)) jc je)"
proof -
  obtain m' b where g: "loop_val info now jc je caps m None = (m', b)"
    by (cases "loop_val info now jc je caps m None")
  with loop_val_min [OF assms(1,2,5), of now jc m]
  have b: "b = Some (min_candidate info m now jc je caps)" by simp
  obtain finish start bias tot stype sid
    where c: "min_candidate info m now jc je caps = (finish, start, bias, tot, stype, sid)"
    by (cases "min_candidate info m now jc je caps")
  show ?thesis
    by (simp add: place_job_def assms(3) general_loop_in_range [OF assms(4)] g b c
        cand_key_def cand_start_def)
qed

text \<open>
  C3, as amended. In the general path (no row of \<open>caps\<close> is immediately runnable), for a
  non-empty list of candidate rows with pairwise distinct \<open>(type, id)\<close>, when the
  estimate converts to a float and no candidate's cost bias is NaN: the tuple the loop
  ends with is the candidate tuple \<open>(finish, start, rate_bias, cores, type, id)\<close> that is
  least in the lexicographic order; the decision sent is its server and no exception is
  raised; it is the tuple of one of the rows and strictly below the tuple of every other
  row; of two rows that agree on finish, start, cost bias and cores, the one with the
  greater \<open>(type, id)\<close> is not chosen; and every reordering of the rows gives the same
  decision and the same models.
\<close>

theorem general_path_unique_minimum:
  assumes "caps \<noteq> []"
    and "distinct (map srv_key_of caps)"
    and "instant_of j_cores caps = []"
    and "\<not> int_too_large j_est"
    and "\<forall>s\<in>set caps. rate_bias info (srv_type s) j_est \<noteq> NaN"
  shows "(\<exists>m1. general_loop info now j_cores j_est caps m None
                = Inr (m1, Some (min_candidate info m now j_cores j_est caps)))
       \<and> (\<exists>m'. place_job info m job_id now j_cores j_est caps =
             ([SCHD job_id (fst (cand_key (min_candidate info m now j_cores j_est caps)))
                           (snd (cand_key (min_candidate info m now j_cores j_est caps)))], Inr m'))
       \<and> (\<exists>s\<in>set caps. min_candidate info m now j_cores j_est caps = candidate info m now j_cores j_est s)
       \<and> (\<forall>s\<in>set caps. srv_key_of s \<noteq> cand_key (min_candidate info m now j_cores j_est caps) \<longrightarrow>
             lex_key (min_candidate info m now j_cores j_est caps)
               < lex_key (candidate info m now j_cores j_est s))
       \<and> (\<forall>s1\<in>set caps. \<forall>s2\<in>set caps.
             cand_rank (candidate info m now j_cores j_est s1) = cand_rank (candidate info m now j_cores j_est s2)
             \<and> srv_key_of s1 < srv_key_of s2 \<longrightarrow>
             cand_key (min_candidate info m now j_cores j_est caps) \<noteq> srv_key_of s2)
       \<and> (\<forall>caps'. mset caps' = mset caps \<longrightarrow>
             place_job info m job_id now j_cores j_est caps' = place_job info m job_id now j_cores j_est caps)"
proof -
  let ?cand = "candidate info m now j_cores j_est"
  let ?best = "min_candidate info m now j_cores j_est caps"
  have least: "lex_key ?best \<le> lex_key (?cand s)" if "s \<in> set caps" for s
    using that by (rule min_candidate_least)
  obtain sb where sb: "sb \<in> set caps" "?best = ?cand sb"
    using min_candidate_in [OF assms(1)] by blast
  have key_best: "cand_key ?best = srv_key_of sb"
    by (simp add: sb(2) cand_key_candidate)
  have "snd (loop_val info now j_cores j_est caps m None) = Some ?best"
    using assms(1,2,5) by (rule loop_val_min)
  then have 1: "\<exists>m1. general_loop info now j_cores j_est caps m None = Inr (m1, Some ?best)"
    by (cases "loop_val info now j_cores j_est caps m None")
       (simp add: general_loop_in_range [OF assms(4)])
  have "fst (loop_val info now j_cores j_est caps m None) (cand_key ?best) \<noteq> None"
    unfolding key_best using sb(1) by (intro loop_val_tracks) simp
  then have 2: "\<exists>m'. place_job info m job_id now j_cores j_est caps =
      ([SCHD job_id (fst (cand_key ?best)) (snd (cand_key ?best))], Inr m')"
    by (auto simp: place_job_general [OF assms] record_job_def)
  have 3: "\<exists>s\<in>set caps. ?best = ?cand s"
    using sb by blast
  have 4: "\<forall>s\<in>set caps. srv_key_of s \<noteq> cand_key ?best \<longrightarrow> lex_key ?best < lex_key (?cand s)"
  proof (intro ballI impI)
    fix s assume s: "s \<in> set caps" and ne: "srv_key_of s \<noteq> cand_key ?best"
    then have "lex_key ?best \<le> lex_key (?cand s)" by (simp add: least)
    moreover from ne have "lex_key ?best \<noteq> lex_key (?cand s)"
      using lex_key_inj cand_key_candidate by metis
    ultimately show "lex_key ?best < lex_key (?cand s)" by simp
  qed
  have 5: "\<forall>s1\<in>set caps. \<forall>s2\<in>set caps.
             cand_rank (?cand s1) = cand_rank (?cand s2) \<and> srv_key_of s1 < srv_key_of s2 \<longrightarrow>
             cand_key ?best \<noteq> srv_key_of s2"
  proof (intro ballI impI notI)
    fix s1 s2
    assume s1: "s1 \<in> set caps" and s2: "s2 \<in> set caps"
      and h: "cand_rank (?cand s1) = cand_rank (?cand s2) \<and> srv_key_of s1 < srv_key_of s2"
      and k: "cand_key ?best = srv_key_of s2"
    have "lex_key (?cand s1) < lex_key (?cand s2)"
      using h cand_key_candidate [of info m now j_cores j_est s1]
        cand_key_candidate [of info m now j_cores j_est s2]
      by (cases "?cand s1"; cases "?cand s2")
         (auto simp: cand_rank_def cand_key_def lex_key_def less_prod_def)
    moreover have "?best = ?cand s2"
    proof -
      from assms(2) have "inj_on srv_key_of (set caps)"
        by (simp add: distinct_map)
      moreover from k key_best have "srv_key_of sb = srv_key_of s2" by simp
      ultimately have "sb = s2"
        using sb(1) s2 by (auto dest: inj_onD)
      with sb(2) show ?thesis by simp
    qed
    ultimately show False
      using least [OF s1] by simp
  qed
  have 6: "\<forall>caps'. mset caps' = mset caps \<longrightarrow>
             place_job info m job_id now j_cores j_est caps' = place_job info m job_id now j_cores j_est caps"
  proof (intro allI impI)
    fix caps' assume p: "mset caps' = mset caps"
    then have s: "set caps' = set caps" by (rule mset_eq_setD)
    from p have "mset (map srv_key_of caps') = mset (map srv_key_of caps)" by simp
    with assms(2) have d': "distinct (map srv_key_of caps')"
      by (metis mset_eq_imp_distinct_iff)
    from assms(1) p have ne': "caps' \<noteq> []" by auto
    from assms(3) s have i': "instant_of j_cores caps' = []"
      by (simp add: instant_of_def filter_empty_conv)
    from assms(5) s have n': "\<forall>s\<in>set caps'. rate_bias info (srv_type s) j_est \<noteq> NaN"
      by simp
    obtain sb' where sb': "sb' \<in> set caps"
      "min_candidate info m now j_cores j_est caps' = ?cand sb'"
      using min_candidate_in [OF ne', of info m now j_cores j_est] s by blast
    have "lex_key (?cand sb') \<le> lex_key (?cand sb)"
      using min_candidate_least [of sb caps' info m now j_cores j_est] sb(1) s sb'(2) by simp
    moreover have "lex_key (?cand sb) \<le> lex_key (?cand sb')"
      using least [OF sb'(1)] sb(2) by simp
    ultimately have "lex_key (?cand sb') = lex_key (?cand sb)" by simp
    with assms(2) sb'(1) sb(1) have "sb' = sb" by (rule candidate_key_inj)
    with sb'(2) sb(2) have b: "min_candidate info m now j_cores j_est caps' = ?best" by simp
    have g: "fst (loop_val info now j_cores j_est caps' m None)
             = fst (loop_val info now j_cores j_est caps m None)"
      using assms(2) p by (rule loop_val_models_perm)
    show "place_job info m job_id now j_cores j_est caps' = place_job info m job_id now j_cores j_est caps"
      by (simp add: place_job_general [OF ne' d' i' assms(4) n'] place_job_general [OF assms] b g)
  qed
  from 1 2 3 4 5 6 show ?thesis by blast
qed

lemmas run_unfold =
  place_job_def instant_of_def parse_server_row_def visit_def earliest_start_for_def
  prune_to_time_def prune_loop_filter running_cores_def state_penalty_seconds_def
  cores_of_type_def ServerSched_init_def record_job_def add_job_def heappush_def
  int_too_large_def tuple_lt_def Let_def

theorem general_path_unique_minimum_witness:
  "[parse_server_row (''small'', 1, ''inactive'', 0, 4, 100, 100, 0, 0),
    parse_server_row (''small'', 0, ''inactive'', 0, 4, 100, 100, 0, 0)] \<noteq> []
   \<and> distinct (map srv_key_of
        [parse_server_row (''small'', 1, ''inactive'', 0, 4, 100, 100, 0, 0),
         parse_server_row (''small'', 0, ''inactive'', 0, 4, 100, 100, 0, 0)])
   \<and> instant_of 2
        [parse_server_row (''small'', 1, ''inactive'', 0, 4, 100, 100, 0, 0),
         parse_server_row (''small'', 0, ''inactive'', 0, 4, 100, 100, 0, 0)] = []
   \<and> \<not> int_too_large 50
   \<and> min_candidate (scenarioB_info (\<lambda>stype j_est. Num (0 :: int)) 80) Map.empty 100 2 50
        [parse_server_row (''small'', 1, ''inactive'', 0, 4, 100, 100, 0, 0),
         parse_server_row (''small'', 0, ''inactive'', 0, 4, 100, 100, 0, 0)]
      = (150, 100, Num 0, 4, ''small'', 0)
   \<and> fst (place_job (scenarioB_info (\<lambda>stype j_est. Num (0 :: int)) 80) Map.empty 7 100 2 50
        [parse_server_row (''small'', 1, ''inactive'', 0, 4, 100, 100, 0, 0),
         parse_server_row (''small'', 0, ''inactive'', 0, 4, 100, 100, 0, 0)])
      = [SCHD 7 ''small'' 0]"
proof -
  let ?caps = "[parse_server_row (''small'', 1, ''inactive'', 0, 4, 100, 100, 0, 0),
                parse_server_row (''small'', 0, ''inactive'', 0, 4, 100, 100, 0, 0)]"
  let ?info = "scenarioB_info (\<lambda>stype j_est. Num (0 :: int)) 80"
  have a: "?caps \<noteq> []" by simp
  have b: "distinct (map srv_key_of ?caps)"
    by (simp add: srv_key_of_def parse_server_row_def)
  have c: "instant_of 2 ?caps = []"
    by (simp add: instant_of_def parse_server_row_def)
  have d: "\<not> int_too_large 50"
    by (simp add: int_too_large_def)
  have e: "\<forall>s\<in>set ?caps. rate_bias ?info (srv_type s) 50 \<noteq> NaN"
    by (simp add: scenarioB_info_def)
  have v: "min_candidate ?info Map.empty 100 2 50 ?caps = (150, 100, Num 0, 4, ''small'', 0)"
    by (simp add: min_candidate_def candidate_def visit_val_def scenarioB_info_def
        parse_server_row_def earliest_start_for_def prune_to_time_def prune_loop_filter
        running_cores_def state_penalty_seconds_def cores_of_type_def ServerSched_init_def
        lex_key_def float_key_def Let_def)
  from general_path_unique_minimum [OF a b c d e, of 100 Map.empty 7]
  obtain m' where "place_job ?info Map.empty 7 100 2 50 ?caps =
      ([SCHD 7 (fst (cand_key (min_candidate ?info Map.empty 100 2 50 ?caps)))
               (snd (cand_key (min_candidate ?info Map.empty 100 2 50 ?caps)))], Inr m')"
    by blast
  then have "fst (place_job ?info Map.empty 7 100 2 50 ?caps) = [SCHD 7 ''small'' 0]"
    by (simp add: v cand_key_def)
  with a b c d v show ?thesis by simp
qed

text \<open>
  C3 as it is written fails when the cost bias is NaN (with \<open>--cost_bias nan\<close>, say): two
  instances of ``small'' then have tuples that differ first at the cost bias, where
  neither is \<open><\<close> the other, so the loop keeps whichever row it met first. Listed as
  1, 0 the decision is the instance 1, which has the greater id; listed as 0, 1 it is the
  instance 0.
\<close>

theorem general_path_nan_order_dependent:
  "fst (place_job
          \<lparr>type_boot = [''small'' \<mapsto> 0], type_cores = [''small'' \<mapsto> 4],
           fallback_boot_penalty = 80, rate_bias = (\<lambda>stype j_est. NaN :: int pyfloat)\<rparr>
          Map.empty 7 100 2 50
          [parse_server_row (''small'', 1, ''inactive'', 0, 4, 100, 100, 0, 0),
           parse_server_row (''small'', 0, ''inactive'', 0, 4, 100, 100, 0, 0)])
     = [SCHD 7 ''small'' 1]
   \<and> fst (place_job
          \<lparr>type_boot = [''small'' \<mapsto> 0], type_cores = [''small'' \<mapsto> 4],
           fallback_boot_penalty = 80, rate_bias = (\<lambda>stype j_est. NaN :: int pyfloat)\<rparr>
          Map.empty 7 100 2 50
          [parse_server_row (''small'', 0, ''inactive'', 0, 4, 100, 100, 0, 0),
           parse_server_row (''small'', 1, ''inactive'', 0, 4, 100, 100, 0, 0)])
     = [SCHD 7 ''small'' 0]"
  by (simp add: run_unfold)

section \<open>The fast path\<close>

lemma fast_best_least:
  assumes "instant \<noteq> []"
  shows "(\<exists>s\<in>set instant. fast_best info instant = fast_triple info s)
         \<and> (\<forall>s\<in>set instant. fast_best info instant \<le> fast_triple info s)"
proof -
  let ?T = "fast_triple info ` set instant"
  have eq: "fast_best info instant = Min ?T"
    by (simp add: fast_best_def fast_triple_def [abs_def])
  have "Min ?T \<in> ?T" using assms by (intro Min_in) simp_all
  moreover have "Min ?T \<le> fast_triple info s" if "s \<in> set instant" for s
    using that by (intro Min_le) simp_all
  ultimately show ?thesis unfolding eq by blast
qed

lemma init_models_tracks:
  "s \<in> set rows \<Longrightarrow> init_models info rows (srv_key_of s) \<noteq> None"
proof -
  have "s \<in> set rows \<or> m (srv_key_of s) \<noteq> None \<Longrightarrow>
        fold (\<lambda>s m. m(srv_key_of s \<mapsto> ServerSched_init (cores_of_type info s))) rows m
          (srv_key_of s) \<noteq> None" for m
    by (induction rows arbitrary: m) auto
  then show "s \<in> set rows \<Longrightarrow> init_models info rows (srv_key_of s) \<noteq> None"
    by (simp add: init_models_def)
qed

lemma fast_path_when_tracked:
  assumes "instant_of j_cores gets_capable \<noteq> []"
    and "fast_best info (instant_of j_cores gets_capable) = (tot, stype, sid)"
    and "m (stype, sid) = Some sched"
  shows "on_JOBN info m job_id now j_cores j_est gets_capable gets_all =
           ([SCHD job_id stype sid],
            Inr (m((stype, sid) \<mapsto> sched\<lparr>heap := heap sched @ [(now + j_est, j_cores)]\<rparr>)))"
proof -
  from assms(1) have "gets_capable \<noteq> []"
    by (auto simp: instant_of_def)
  with assms show ?thesis
    by (simp add: on_JOBN_def place_job_def record_job_def add_job_def heappush_def Let_def)
qed

text \<open>
  C5. When a row of the capable list is immediately runnable, the fast path sends the
  least \<open>(cores, type, id)\<close> of those rows, and, as \<open>fast_path_when_tracked\<close> shows, it
  records the job from the submission time when that server has a model. When it has
  none, which the general path and the \<open>JCPL\<close> branch both provide for, the decision is
  sent and \<open>sched_by_srv[(stype, sid)]\<close> raises \<open>KeyError\<close>: here the first \<open>GETS All\<close>
  listed only the instance 0 of ``small'', and \<open>GETS Capable\<close> lists the instance 1.
\<close>

theorem fast_path_untracked_server:
  "step \<lparr>type_boot = Map.empty, type_cores = Map.empty, fallback_boot_penalty = 80,
          rate_bias = (\<lambda>stype j_est. Num (0 :: int))\<rparr>
        \<lparr>sched_by_srv = init_models
             \<lparr>type_boot = Map.empty, type_cores = Map.empty, fallback_boot_penalty = 80,
              rate_bias = (\<lambda>stype j_est. Num (0 :: int))\<rparr>
             [parse_server_row (''small'', 0, ''idle'', 0, 4, 100, 100, 0, 0)],
         main_now = 0\<rparr>
        (JOBN 1 5 2 10 10 30)
        [parse_server_row (''small'', 1, ''idle'', 0, 4, 100, 100, 0, 0)]
        []
   = ([SCHD 1 ''small'' 1], Inl KeyError)"
  by (simp add: on_JOBN_def place_job_def instant_of_def fast_best_def cores_of_type_def
      record_job_def init_models_def srv_key_of_def parse_server_row_def)

section \<open>Completion events\<close>

text \<open>
  C8. A \<open>JCPL\<close> event for a \<open>(type, id)\<close> without a model raises nothing, sends nothing
  and leaves \<open>sched_by_srv\<close> as it was: no model is created and none is changed. (The
  loop's variable \<open>now\<close> takes the event's time.)
\<close>

theorem jcpl_untracked_no_op:
  assumes "sched_by_srv st (stype, sid) = None"
  shows "step info st (JCPL t job_id stype sid) gets_capable gets_all
           = ([], Inr (Continue, st\<lparr>main_now := t\<rparr>))
         \<and> sched_by_srv (st\<lparr>main_now := t\<rparr>) = sched_by_srv st"
proof -
  from assms have "step info st (JCPL t job_id stype sid) gets_capable gets_all
      = ([], Inr (Continue, \<lparr>sched_by_srv = sched_by_srv st, main_now = t\<rparr>))"
    by simp
  moreover have "\<lparr>sched_by_srv = sched_by_srv st, main_now = t\<rparr> = st\<lparr>main_now := t\<rparr>"
    by simp
  ultimately show ?thesis by simp
qed

theorem jcpl_untracked_no_op_witness:
  "sched_by_srv \<lparr>sched_by_srv = [(''small'', 0) \<mapsto> \<lparr>cores_total = 4, heap = [(30, 2)]\<rparr>],
                  main_now = 10\<rparr> (''big'', 0) = None
   \<and> step \<lparr>type_boot = Map.empty, type_cores = Map.empty, fallback_boot_penalty = 80,
            rate_bias = (\<lambda>stype j_est. Num (0 :: int))\<rparr>
        \<lparr>sched_by_srv = [(''small'', 0) \<mapsto> \<lparr>cores_total = 4, heap = [(30, 2)]\<rparr>], main_now = 10\<rparr>
        (JCPL 40 3 ''big'' 0) [] []
      = ([], Inr (Continue,
           \<lparr>sched_by_srv = [(''small'', 0) \<mapsto> \<lparr>cores_total = 4, heap = [(30, 2)]\<rparr>], main_now = 40\<rparr>))"
proof -
  let ?st = "\<lparr>sched_by_srv = [(''small'', 0) \<mapsto> \<lparr>cores_total = 4, heap = [(30, 2)]\<rparr>], main_now = 10\<rparr>"
  have h: "sched_by_srv ?st (''big'', 0) = None" by simp
  from jcpl_untracked_no_op [OF h, of _ 40 3 "[]" "[]"] h show ?thesis by simp
qed

section \<open>An empty capable list\<close>

lemma keep_best_not_None: "keep_best c best \<noteq> None"
  by (cases best) (simp_all add: keep_best_def del: not_None_eq)

lemma loop_val_some:
  "caps \<noteq> [] \<or> best \<noteq> None \<Longrightarrow>
     \<exists>c. snd (loop_val info now jc je caps m best) = Some c
          \<and> (cand_key c \<in> srv_key_of ` set caps \<or> best = Some c)"
proof (induction caps arbitrary: m best)
  case Nil
  then show ?case by auto
next
  case (Cons s caps)
  let ?c = "fst (visit_val info now jc je s m)"
  let ?m' = "snd (visit_val info now jc je s m)"
  have "caps \<noteq> [] \<or> keep_best ?c best \<noteq> None"
    by (simp add: keep_best_not_None del: not_None_eq)
  from Cons.IH [OF this, of ?m']
  obtain c where c: "snd (loop_val info now jc je caps ?m' (keep_best ?c best)) = Some c"
    and d: "cand_key c \<in> srv_key_of ` set caps \<or> keep_best ?c best = Some c"
    by blast
  have "cand_key c \<in> srv_key_of ` set (s # caps) \<or> best = Some c"
  proof (cases "cand_key c \<in> srv_key_of ` set caps")
    case True
    then show ?thesis by simp
  next
    case False
    with d have "keep_best ?c best = Some c" by simp
    then have "c = ?c \<or> best = Some c"
      by (auto simp: keep_best_def split: option.splits if_splits)
    then show ?thesis
      using cand_key_visit [of info now jc je s m] by auto
  qed
  with c show ?case
    by auto
qed

text \<open>
  C9, as amended. When \<open>GETS Capable\<close> returns no row, the \<open>JOBN\<close> branch is the
  two-phase decision over the rows of \<open>GETS All\<close>; and when that list is not empty, the
  exception of an empty candidate set (\<open>TypeError\<close>, from unpacking \<open>None\<close>) is not
  raised, and the decision is sent to a server of the list, the one case apart in which
  the general path is taken with an estimate too large for a float, where computing the
  cost term raises \<open>OverflowError\<close>.
\<close>

theorem empty_capable_widens:
  "on_JOBN info m job_id now j_cores j_est [] gets_all
     = place_job info m job_id now j_cores j_est gets_all
   \<and> (gets_all \<noteq> [] \<longrightarrow>
        snd (on_JOBN info m job_id now j_cores j_est [] gets_all) \<noteq> Inl TypeError
        \<and> ((\<exists>s\<in>set gets_all. fst (on_JOBN info m job_id now j_cores j_est [] gets_all)
                                  = [SCHD job_id (srv_type s) (srv_id s)])
           \<or> (int_too_large j_est \<and> instant_of j_cores gets_all = []
               \<and> on_JOBN info m job_id now j_cores j_est [] gets_all = ([], Inl OverflowError))))"
proof (intro conjI impI)
  show w: "on_JOBN info m job_id now j_cores j_est [] gets_all
        = place_job info m job_id now j_cores j_est gets_all"
    by (simp add: on_JOBN_def)
  assume ne: "gets_all \<noteq> []"
  let ?inst = "instant_of j_cores gets_all"
  let ?sent = "\<exists>s\<in>set gets_all. fst (place_job info m job_id now j_cores j_est gets_all)
                             = [SCHD job_id (srv_type s) (srv_id s)]"
  have fast: "?sent \<and> snd (place_job info m job_id now j_cores j_est gets_all) \<noteq> Inl TypeError"
    if "?inst \<noteq> []"
  proof -
    from that obtain s where s: "s \<in> set ?inst" "fast_best info ?inst = fast_triple info s"
      using fast_best_least [of ?inst info] by blast
    then have "s \<in> set gets_all" by (simp add: instant_of_def)
    with s(2) that show ?thesis
      by (auto simp: place_job_def fast_triple_def record_job_def split: option.splits)
  qed
  have general: "?sent \<and> snd (place_job info m job_id now j_cores j_est gets_all) \<noteq> Inl TypeError"
    if "?inst = []" and r: "\<not> int_too_large j_est"
  proof -
    obtain m' b where g: "loop_val info now j_cores j_est gets_all m None = (m', b)"
      by (cases "loop_val info now j_cores j_est gets_all m None")
    from loop_val_some [of gets_all None info now j_cores j_est m] ne g
    obtain c where c: "b = Some c" "cand_key c \<in> srv_key_of ` set gets_all"
      by auto
    then obtain s where s: "s \<in> set gets_all" "cand_key c = srv_key_of s" by auto
    obtain finish start bias tot stype sid where t: "c = (finish, start, bias, tot, stype, sid)"
      by (cases c)
    from s(2) t have k: "stype = srv_type s" "sid = srv_id s"
      by (simp_all add: cand_key_def srv_key_of_def)
    from s(1) k that(1) g c(1) t show ?thesis
      by (auto simp: place_job_def general_loop_in_range [OF r] record_job_def
          split: option.splits)
  qed
  have overflow: "place_job info m job_id now j_cores j_est gets_all = ([], Inl OverflowError)"
    if "?inst = []" and "int_too_large j_est"
    using that ne by (simp add: place_job_def general_loop_overflow)
  show "snd (on_JOBN info m job_id now j_cores j_est [] gets_all) \<noteq> Inl TypeError"
    unfolding w using fast general overflow
    by (cases "?inst = []"; cases "int_too_large j_est") auto
  show "(\<exists>s\<in>set gets_all. fst (on_JOBN info m job_id now j_cores j_est [] gets_all)
                             = [SCHD job_id (srv_type s) (srv_id s)])
        \<or> (int_too_large j_est \<and> ?inst = []
            \<and> on_JOBN info m job_id now j_cores j_est [] gets_all = ([], Inl OverflowError))"
    unfolding w using fast general overflow
    by (cases "?inst = []"; cases "int_too_large j_est") blast+
qed

theorem empty_capable_widens_witness:
  "[parse_server_row (''small'', 0, ''idle'', 0, 4, 100, 100, 0, 0)] \<noteq> []
   \<and> on_JOBN (scenarioB_info (\<lambda>stype j_est. Num (0 :: int)) 80)
        [(''small'', 0) \<mapsto> \<lparr>cores_total = 4, heap = []\<rparr>] 7 100 2 50 []
        [parse_server_row (''small'', 0, ''idle'', 0, 4, 100, 100, 0, 0)]
      = ([SCHD 7 ''small'' 0], Inr [(''small'', 0) \<mapsto> \<lparr>cores_total = 4, heap = [(150, 2)]\<rparr>])"
proof -
  let ?all = "[parse_server_row (''small'', 0, ''idle'', 0, 4, 100, 100, 0, 0)]"
  let ?info = "scenarioB_info (\<lambda>stype j_est. Num (0 :: int)) 80"
  let ?m = "[(''small'', 0) \<mapsto> \<lparr>cores_total = 4, heap = []\<rparr>]"
  have "place_job ?info ?m 7 100 2 50 ?all
        = ([SCHD 7 ''small'' 0], Inr [(''small'', 0) \<mapsto> \<lparr>cores_total = 4, heap = [(150, 2)]\<rparr>])"
    by (simp add: place_job_def instant_of_def fast_best_def parse_server_row_def scenarioB_info_def
        cores_of_type_def record_job_def add_job_def heappush_def)
  with empty_capable_widens [of ?info ?m 7 100 2 50 ?all] show ?thesis by simp
qed

text \<open>
  C9 as it is written fails when \<open>GETS All\<close> returns no row either: the loop of the
  general path does not run, \<open>best_tuple\<close> stays \<open>None\<close>, and unpacking it raises.
\<close>

theorem no_servers_at_all_raises:
  "step \<lparr>type_boot = Map.empty, type_cores = Map.empty, fallback_boot_penalty = 80,
          rate_bias = (\<lambda>stype j_est. Num (0 :: int))\<rparr>
        \<lparr>sched_by_srv = Map.empty, main_now = 0\<rparr>
        (JOBN 1 5 2 10 10 30) [] []
   = ([], Inl TypeError)"
  by (simp add: on_JOBN_def place_job_def instant_of_def)

section \<open>Scenario B\<close>

lemmas scenarioB_unfold =
  scenarioB_info_def scenarioB_models_def scenarioB_caps_def on_JOBN_def run_unfold

text \<open>
  C6, as amended. In scenario B, when the earlier job in the model of ``small'' occupies
  more than 2 of its 4 cores until a time strictly after 160, the job needing 2 cores that
  arrives at 100 with estimate 50 is placed on ``big'' with start 160 and finish 210,
  whatever the cost terms are; the model of ``big'' then holds the entry \<open>(210, 2)\<close>.
\<close>

theorem scenario_B_big:
  assumes "160 < e" and "2 < c"
  shows "general_loop (scenarioB_info rb fb) 100 2 50 scenarioB_caps (scenarioB_models e c) None
           = Inr (scenarioB_models e c, Some (210, 160, rb ''big'' 50, 8, ''big'', 0))
       \<and> step (scenarioB_info rb fb) \<lparr>sched_by_srv = scenarioB_models e c, main_now = t0\<rparr>
            (JOBN job_id 100 2 j_mem j_disk 50) scenarioB_caps gets_all
          = ([SCHD job_id ''big'' 0],
             Inr (Continue,
               \<lparr>sched_by_srv = (scenarioB_models e c)((''big'', 0) \<mapsto> \<lparr>cores_total = 8, heap = [(210, 2)]\<rparr>),
                main_now = 100\<rparr>))"
proof -
  have g: "general_loop (scenarioB_info rb fb) 100 2 50 scenarioB_caps (scenarioB_models e c) None
        = Inr (scenarioB_models e c, Some (210, 160, rb ''big'' 50, 8, ''big'', 0))"
    using assms by (auto simp: scenarioB_unfold)
  have p: "on_JOBN (scenarioB_info rb fb) (scenarioB_models e c) job_id 100 2 50 scenarioB_caps gets_all
        = ([SCHD job_id ''big'' 0],
           Inr ((scenarioB_models e c)((''big'', 0) \<mapsto> \<lparr>cores_total = 8, heap = [(210, 2)]\<rparr>)))"
  proof -
    have i: "instant_of 2 scenarioB_caps = []" and ne: "scenarioB_caps \<noteq> []"
      by (simp_all add: scenarioB_caps_def parse_server_row_def instant_of_def)
    have r: "record_job (scenarioB_models e c) (''big'', 0) 160 2 50
          = Inr ((scenarioB_models e c)((''big'', 0) \<mapsto> \<lparr>cores_total = 8, heap = [(210, 2)]\<rparr>))"
      by (simp add: record_job_def scenarioB_models_def add_job_def heappush_def)
    show ?thesis
      by (simp add: on_JOBN_def place_job_def i ne g r)
  qed
  show ?thesis
    by (simp add: g p)
qed

theorem scenario_B_big_witness:
  "(160 :: int) < 300 \<and> (2 :: int) < 4
   \<and> step (scenarioB_info (\<lambda>stype j_est. Num (0 :: int)) 80)
        \<lparr>sched_by_srv = scenarioB_models 300 4, main_now = 0\<rparr>
        (JOBN 7 100 2 500 500 50) scenarioB_caps []
      = ([SCHD 7 ''big'' 0],
         Inr (Continue,
           \<lparr>sched_by_srv = (scenarioB_models 300 4)((''big'', 0) \<mapsto> \<lparr>cores_total = 8, heap = [(210, 2)]\<rparr>),
            main_now = 100\<rparr>))"
proof -
  have a: "(160 :: int) < 300" and b: "(2 :: int) < 4" by simp_all
  from scenario_B_big [OF a b, of "\<lambda>stype j_est. Num (0 :: int)" 80 0 7 500 500 "[]"] show ?thesis
    by simp
qed

text \<open>
  C6 as it is written fails when the earlier job occupies all 4 cores of ``small'' until
  exactly 160 and the cost terms are equal: both tuples have finish 210 and start 160,
  and 4 cores come before 8, so the job is placed on ``small''.
\<close>

theorem scenario_B_small_at_160:
  "step (scenarioB_info (\<lambda>stype j_est. Num (0 :: int)) 80)
        \<lparr>sched_by_srv = scenarioB_models 160 4, main_now = 0\<rparr>
        (JOBN 7 100 2 500 500 50) scenarioB_caps []
      = ([SCHD 7 ''small'' 0],
         Inr (Continue,
           \<lparr>sched_by_srv = (scenarioB_models 160 4)
              ((''small'', 0) \<mapsto> \<lparr>cores_total = 4, heap = [(160, 4), (210, 2)]\<rparr>),
            main_now = 100\<rparr>))"
  by (simp add: scenarioB_unfold)

end
